theory Spec2Isabelle
  imports Complex_Main "HOL-Library.Sublist" "HOL-Library.AList"
begin

section \<open>Errors and the random source\<close>

text \<open>
  The module \<^verbatim>\<open>swap.py\<close> raises no exception of its own; every failure comes from the
  standard library: \<^verbatim>\<open>random.sample\<close>, \<^verbatim>\<open>random.randint\<close> and \<^verbatim>\<open>list.remove\<close> raise
  \<^verbatim>\<open>ValueError\<close>, iterating over \<^verbatim>\<open>None\<close> raises \<^verbatim>\<open>TypeError\<close>, an index out of range
  raises \<^verbatim>\<open>IndexError\<close>. A function that can fail returns \<open>error + 'a\<close>.
\<close>

datatype error = ValueError | TypeError | IndexError

text \<open>
  The module draws from Python's global generator. Here the generator is an explicit
  argument: the list of the raw draws still to come (an exhausted list keeps drawing 0).
  Each library call consumes draws and returns the rest. A raw draw \<open>d\<close> selects
  \<open>d mod n\<close> among \<open>n\<close> alternatives, so every outcome of the library call is the outcome
  of some list of draws, and a theorem for every \<open>rng\<close> is a theorem for every outcome.
\<close>

type_synonym rng = "nat list"

fun draw :: "rng \<Rightarrow> nat \<times> rng" where
  "draw [] = (0, [])"
| "draw (d # ds) = (d, ds)"

text \<open>\<^verbatim>\<open>random.randrange(n)\<close>: an integer of \<open>[0, n)\<close>; \<^verbatim>\<open>ValueError\<close> on an empty range.\<close>

definition randrange :: "int \<Rightarrow> rng \<Rightarrow> error + int \<times> rng" where
  "randrange n g =
     (if n \<le> 0 then Inl ValueError
      else (case draw g of (d, g') \<Rightarrow> Inr (int d mod n, g')))"

text \<open>\<^verbatim>\<open>random.randint(a, b)\<close> is \<^verbatim>\<open>a + randrange(b - a + 1)\<close>: both ends included.\<close>

definition randint :: "int \<Rightarrow> int \<Rightarrow> rng \<Rightarrow> error + int \<times> rng" where
  "randint a b g =
     (case randrange (b - a + 1) g of
        Inl e \<Rightarrow> Inl e
      | Inr (r, g') \<Rightarrow> Inr (a + r, g'))"

text \<open>
  \<^verbatim>\<open>random.sample(population, k)\<close>: \<open>k\<close> elements at distinct positions of the
  population, in selection order; \<^verbatim>\<open>ValueError\<close> when \<open>k\<close> is negative or larger than the
  population. The module also samples from sets (accepted by the Python versions it was
  written for); a set is given here as the list of its elements.
\<close>

fun sample_loop :: "'a list \<Rightarrow> nat \<Rightarrow> rng \<Rightarrow> 'a list \<times> rng" where
  "sample_loop pool 0 g = ([], g)"
| "sample_loop pool (Suc k) g =
     (case draw g of (d, g') \<Rightarrow>
        (let j = d mod length pool in
         (case sample_loop (take j pool @ drop (Suc j) pool) k g' of
            (chosen, g'') \<Rightarrow> (pool ! j # chosen, g''))))"

definition sample :: "'a list \<Rightarrow> int \<Rightarrow> rng \<Rightarrow> error + 'a list \<times> rng" where
  "sample population k g =
     (if k < 0 \<or> int (length population) < k then Inl ValueError
      else Inr (sample_loop population (nat k) g))"

section \<open>Noise injection\<close>

text \<open>
  The loop of \<^verbatim>\<open>add_noise\<close>:
  \<^verbatim>\<open>for index, position in enumerate(positions):
      sequence[position] = sequence[replacements[index]]\<close>
  on the list of the characters. Reading or writing past the end is \<^verbatim>\<open>IndexError\<close>.
\<close>

fun substitute :: "nat \<Rightarrow> nat list \<Rightarrow> nat list \<Rightarrow> 'a list \<Rightarrow> error + 'a list" where
  "substitute index [] replacements s = Inr s"
| "substitute index (position # positions) replacements s =
     (if index < length replacements \<and> replacements ! index < length s \<and> position < length s
      then substitute (Suc index) positions replacements (s[position := s ! (replacements ! index)])
      else Inl IndexError)"

definition add_noise :: "string \<Rightarrow> int \<Rightarrow> rng \<Rightarrow> error + (string \<times> int) \<times> rng" where
  "add_noise sequence max_substitutions g =
     (case randint 1 max_substitutions g of
        Inl e \<Rightarrow> Inl e
      | Inr (substitutions, g1) \<Rightarrow>
     (case sample [1..<length sequence] substitutions g1 of
        Inl e \<Rightarrow> Inl e
      | Inr (positions, g2) \<Rightarrow>
     (case sample [1..<length sequence] substitutions g2 of
        Inl e \<Rightarrow> Inl e
      | Inr (replacements, g3) \<Rightarrow>
     (case substitute 0 positions replacements sequence of
        Inl e \<Rightarrow> Inl e
      | Inr s \<Rightarrow> Inr ((s, substitutions), g3)))))"

section \<open>The alignment\<close>

text \<open>
  The class of the alignment and the class of its sequences are not in \<^verbatim>\<open>swap.py\<close>; the
  module only uses their attributes and methods. A sequence object has the four
  attributes the module reads and writes. Objects are compared and removed by identity,
  and the module changes an object that several collections hold, so objects live in a
  store and collections hold references.
\<close>

record sequence =
  otu :: string
  "identifier" :: string
  description :: string
  sequence_data :: string

type_synonym ref = nat

text \<open>
  The alignment: \<open>sequences\<close> is the attribute \<^verbatim>\<open>msa.sequences\<close>, a Python list of
  references; \<open>heap\<close> is the store of the sequence objects and \<open>fresh\<close> the next
  reference the store hands out.
\<close>

record msa =
  sequences :: "ref list"
  heap :: "ref \<Rightarrow> sequence"
  fresh :: ref

text \<open>
  Python's \<^verbatim>\<open>x in c\<close> depends on what \<open>c\<close> is: a substring test when \<open>c\<close> is a string,
  a membership test when it is a list or a set. The module calls
  \<^verbatim>\<open>get_seqs_from_otus\<close> with both.
\<close>

datatype container = Str string | Coll "string list"

fun contains :: "string \<Rightarrow> container \<Rightarrow> bool" where
  "contains x (Str s) = sublist x s"
| "contains x (Coll xs) = (x \<in> set xs)"

text \<open>\<^verbatim>\<open>set(s)\<close> for a string \<open>s\<close>: the set of its characters, each a string of length one.\<close>

definition set_of_str :: "string \<Rightarrow> string list" where
  "set_of_str s = remdups (map (\<lambda>c. [c]) s)"

text \<open>\<^verbatim>\<open>str(n)\<close> for an integer: its decimal digits.\<close>

definition digit :: "nat \<Rightarrow> char" where
  "digit d = ''0123456789'' ! d"

function str_nat :: "nat \<Rightarrow> string" where
  "str_nat n = (if n < 10 then [digit n] else str_nat (n div 10) @ [digit (n mod 10)])"
  by pat_completeness auto
termination
  by (relation "measure id") auto

declare str_nat.simps [simp del]

definition str :: "int \<Rightarrow> string" where
  "str i = (if i < 0 then CHR ''-'' # str_nat (nat (- i)) else str_nat (nat i))"

text \<open>\<^verbatim>\<open>list.remove(x)\<close>: removes the first occurrence; \<^verbatim>\<open>ValueError\<close> when there is none.\<close>

definition list_remove :: "'a \<Rightarrow> 'a list \<Rightarrow> error + 'a list" where
  "list_remove x xs = (if x \<in> set xs then Inr (remove1 x xs) else Inl ValueError)"

text \<open>
  Modelled from the spec: the method \<^verbatim>\<open>otus()\<close> of the alignment, which is not in
  \<^verbatim>\<open>swap.py\<close>. The spec: the set of distinct OTU identifiers present. The set is given as
  the list of its elements.
\<close>

definition otus :: "msa \<Rightarrow> string list" where
  "otus m = remdups (map (\<lambda>r. otu (heap m r)) (sequences m))"

text \<open>
  Modelled from the spec: the method \<^verbatim>\<open>remove_sequence(seq)\<close> of the alignment, which is
  not in \<^verbatim>\<open>swap.py\<close>. The spec: removes a specific Sequence instance from the live
  mutable collection; the module itself removes with \<^verbatim>\<open>msa.sequences.remove(seq)\<close>.
\<close>

definition remove_sequence :: "msa \<Rightarrow> ref \<Rightarrow> error + msa" where
  "remove_sequence m seq =
     (case list_remove seq (sequences m) of
        Inl e \<Rightarrow> Inl e
      | Inr xs \<Rightarrow> Inr (m\<lparr>sequences := xs\<rparr>))"

text \<open>
  Modelled from the spec: the method \<^verbatim>\<open>add_sequence\<close> of the alignment, which is not in
  \<^verbatim>\<open>swap.py\<close>. The module calls it in two ways. \<^verbatim>\<open>msa.add_sequence(seq)\<close> inserts an
  existing object: \<open>add_sequence\<close>. \<^verbatim>\<open>msa.add_sequence(None, description, sequence_data)\<close>
  constructs a new Sequence and inserts it: \<open>add_new_sequence\<close>. The spec gives a
  description the form \<^verbatim>\<open>otu@identifier\<close>, from which \<open>Sequence\<close> reads the two other
  attributes of a new object.
\<close>

definition add_sequence :: "msa \<Rightarrow> ref \<Rightarrow> msa" where
  "add_sequence m seq = m\<lparr>sequences := sequences m @ [seq]\<rparr>"

definition Sequence :: "string \<Rightarrow> string \<Rightarrow> sequence" where
  "Sequence d s =
     \<lparr>otu = takeWhile (\<lambda>c. c \<noteq> CHR ''@'') d,
      identifier = drop 1 (dropWhile (\<lambda>c. c \<noteq> CHR ''@'') d),
      description = d,
      sequence_data = s\<rparr>"

definition add_new_sequence :: "msa \<Rightarrow> string \<Rightarrow> string \<Rightarrow> msa" where
  "add_new_sequence m d s =
     m\<lparr>sequences := sequences m @ [fresh m],
       heap := (heap m)(fresh m := Sequence d s),
       fresh := Suc (fresh m)\<rparr>"

section \<open>Query helpers\<close>

text \<open>
  \<^verbatim>\<open>get_seqs_from_otus\<close> returns a Python set of sequence objects: each object once. The
  set is given as the list of its elements, in the order of the alignment.
\<close>

definition get_seqs_from_otus :: "msa \<Rightarrow> container \<Rightarrow> ref list" where
  "get_seqs_from_otus m c =
     remdups (filter (\<lambda>seq. contains (otu (heap m seq)) c) (sequences m))"

text \<open>
  \<^verbatim>\<open>remove_seqs_from_otu\<close> iterates over \<^verbatim>\<open>msa.sequences\<close> while removing from it. A
  Python list iterator keeps an index: it yields the element at the index while the index
  is below the current length, and then advances.
\<close>

lemma list_remove_length:
  "list_remove x xs = Inr ys \<Longrightarrow> Suc (length ys) = length xs"
  by (auto simp: list_remove_def length_remove1 split: if_splits) (cases xs, auto)

function remove_seqs_loop :: "nat \<Rightarrow> container \<Rightarrow> msa \<Rightarrow> error + msa" where
  "remove_seqs_loop i c m =
     (if i < length (sequences m) then
        (if contains (otu (heap m (sequences m ! i))) c then
           (case remove_sequence m (sequences m ! i) of
              Inl e \<Rightarrow> Inl e
            | Inr m' \<Rightarrow> remove_seqs_loop (Suc i) c m')
         else remove_seqs_loop (Suc i) c m)
      else Inr m)"
  by pat_completeness auto
termination
proof (relation "measure (\<lambda>(i, c, m). length (sequences m) - i)", goal_cases)
  case 1
  show ?case by simp
next
  case (2 i c m m')
  from 2(3) obtain ys where "list_remove (sequences m ! i) (sequences m) = Inr ys"
    and "sequences m' = ys"
    by (auto simp: remove_sequence_def split: sum.splits)
  with list_remove_length have "Suc (length (sequences m')) = length (sequences m)" by fastforce
  with 2(1) show ?case by simp
next
  case (3 i c m)
  then show ?case by simp
qed

declare remove_seqs_loop.simps [simp del]

definition remove_seqs_from_otu :: "msa \<Rightarrow> container \<Rightarrow> error + msa" where
  "remove_seqs_from_otu m c = remove_seqs_loop 0 c m"

text \<open>
  \<^verbatim>\<open>receivers_in_msa\<close> builds a dictionary, given as an association list in insertion
  order. \<^verbatim>\<open>receiver_count[seq.otu] += 1\<close> is guarded by \<^verbatim>\<open>seq.otu in receivers\<close>, and every
  receiver is a key, so the key is always found.
\<close>

definition receivers_in_msa :: "msa \<Rightarrow> string list \<Rightarrow> (string \<times> int) list" where
  "receivers_in_msa m receivers =
     fold (\<lambda>seq receiver_count.
             if otu (heap m seq) \<in> set receivers
             then AList.map_entry (otu (heap m seq)) (\<lambda>n. n + 1) receiver_count
             else receiver_count)
          (sequences m)
          (fold (\<lambda>name receiver_count. AList.update name 0 receiver_count) receivers [])"

section \<open>Random selection of OTUs\<close>

text \<open>
  The parameter \<^verbatim>\<open>exclude\<close> defaults to \<^verbatim>\<open>None\<close>, over which the loop cannot iterate.
  Without enough candidates the function returns \<^verbatim>\<open>set()\<close>, otherwise the list that
  \<^verbatim>\<open>random.sample\<close> returns; both are given as lists.
\<close>

definition pick_otus_randomly ::
  "msa \<Rightarrow> int \<Rightarrow> string list option \<Rightarrow> rng \<Rightarrow> error + string list \<times> rng" where
  "pick_otus_randomly m count exclude g =
     (case exclude of
        None \<Rightarrow> Inl TypeError
      | Some excluded \<Rightarrow>
          (let otus_in_msa =
                 fold (\<lambda>name os. if name \<in> set os then remove1 name os else os) excluded (otus m)
           in if int (length otus_in_msa) < count then Inr ([], g)
              else sample otus_in_msa count g))"

section \<open>The swap engine\<close>

text \<open>
  \<^verbatim>\<open>randomly_assign_seqs\<close>: the new description is written into the object, and the object
  is inserted into the alignment.
\<close>

fun randomly_assign_seqs ::
  "msa \<Rightarrow> ref list \<Rightarrow> string list \<Rightarrow> rng \<Rightarrow> error + msa \<times> rng" where
  "randomly_assign_seqs m [] to_otus g = Inr (m, g)"
| "randomly_assign_seqs m (seq # seqs) to_otus g =
     (case sample to_otus 1 g of
        Inl e \<Rightarrow> Inl e
      | Inr ([], g') \<Rightarrow> Inl IndexError
      | Inr (to_otu # _, g') \<Rightarrow>
          (let new_description =
                 to_otu @ ''@'' @ identifier (heap m seq) @ ''_from_'' @ otu (heap m seq);
               m' = m\<lparr>heap := (heap m)(seq := (heap m seq)\<lparr>description := new_description\<rparr>)\<rparr>
           in randomly_assign_seqs (add_sequence m' seq) seqs to_otus g'))"

text \<open>
  The body of the loop of \<^verbatim>\<open>replace_receiver_seqs\<close> in two parts, each reading the
  variable \<^verbatim>\<open>swap_count\<close>: the removal of old sequences (lines 38 to 40) and the
  assignment of new ones (lines 44 to 47).
\<close>

fun remove_each :: "ref list \<Rightarrow> msa \<Rightarrow> error + msa" where
  "remove_each [] m = Inr m"
| "remove_each (seq # seqs) m =
     (case list_remove seq (sequences m) of
        Inl e \<Rightarrow> Inl e
      | Inr xs \<Rightarrow> remove_each seqs (m\<lparr>sequences := xs\<rparr>))"

definition remove_old_sequences :: "msa \<Rightarrow> string \<Rightarrow> int \<Rightarrow> rng \<Rightarrow> error + msa \<times> rng" where
  "remove_old_sequences m this_otu swap_count g =
     (let receiver_seqs = get_seqs_from_otus m (Str this_otu) in
      (case sample receiver_seqs swap_count g of
         Inl e \<Rightarrow> Inl e
       | Inr (chosen, g') \<Rightarrow>
           (case remove_each chosen m of
              Inl e \<Rightarrow> Inl e
            | Inr m' \<Rightarrow> Inr (m', g'))))"

definition assign_new_sequences ::
  "msa \<Rightarrow> string list \<Rightarrow> string \<Rightarrow> int \<Rightarrow> rng \<Rightarrow> error + msa \<times> rng" where
  "assign_new_sequences m receivers this_otu swap_count g =
     (case pick_otus_randomly m swap_count (Some receivers) g of
        Inl e \<Rightarrow> Inl e
      | Inr (donors, g') \<Rightarrow>
          (let seqs = get_seqs_from_otus m (Coll donors) in
           (case remove_seqs_from_otu m (Coll donors) of
              Inl e \<Rightarrow> Inl e
            | Inr m' \<Rightarrow> randomly_assign_seqs m' seqs (set_of_str this_otu) g')))"

text \<open>
  The state of the loop: the alignment, the random source and the two local variables.
  The function prints \<open>swap_count\<close> and the number of affected receivers and returns the
  alignment; the model returns the final state, which holds all of them.
\<close>

record swap_state =
  alignment :: msa
  gen :: rng
  swap_count :: int
  affected_receivers :: "string list"

definition replace_step :: "string list \<Rightarrow> swap_state \<Rightarrow> string \<times> int \<Rightarrow> error + swap_state" where
  "replace_step receivers st entry =
     (case entry of (this_otu, n) \<Rightarrow>
        if n \<le> 1 then Inr st
        else
          (let k = swap_count st + (n - 1) in
           (case remove_old_sequences (alignment st) this_otu k (gen st) of
              Inl e \<Rightarrow> Inl e
            | Inr (m1, g1) \<Rightarrow>
                (case assign_new_sequences m1 receivers this_otu k g1 of
                   Inl e \<Rightarrow> Inl e
                 | Inr (m2, g2) \<Rightarrow>
                     Inr \<lparr>alignment = m2, gen = g2, swap_count = k,
                          affected_receivers = List.insert this_otu (affected_receivers st)\<rparr>))))"

fun replace_loop :: "string list \<Rightarrow> (string \<times> int) list \<Rightarrow> swap_state \<Rightarrow> error + swap_state" where
  "replace_loop receivers [] st = Inr st"
| "replace_loop receivers (entry # entries) st =
     (case replace_step receivers st entry of
        Inl e \<Rightarrow> Inl e
      | Inr st' \<Rightarrow> replace_loop receivers entries st')"

definition initial :: "msa \<Rightarrow> rng \<Rightarrow> swap_state" where
  "initial m g = \<lparr>alignment = m, gen = g, swap_count = 0, affected_receivers = []\<rparr>"

definition replace_receiver_seqs :: "msa \<Rightarrow> string list \<Rightarrow> rng \<Rightarrow> error + swap_state" where
  "replace_receiver_seqs m receivers g =
     replace_loop receivers (receivers_in_msa m receivers) (initial m g)"


section \<open>The contamination engine\<close>

text \<open>
  One contamination event: lines 128 to 143 of \<^verbatim>\<open>cross_contaminate\<close>. The contaminant
  is drawn from \<^verbatim>\<open>msa.sequences\<close> before the new sequence is added.
\<close>

definition contaminate :: "msa \<Rightarrow> string \<Rightarrow> int \<Rightarrow> rng \<Rightarrow> error + msa \<times> rng" where
  "contaminate m this_otu max_substitutions g =
     (case sample (get_seqs_from_otus m (Str this_otu)) 1 g of
        Inl e \<Rightarrow> Inl e
      | Inr ([], g1) \<Rightarrow> Inl IndexError
      | Inr (original_seq # _, g1) \<Rightarrow>
     (case add_noise (sequence_data (heap m original_seq)) max_substitutions g1 of
        Inl e \<Rightarrow> Inl e
      | Inr ((contaminated_seq, substitutions), g2) \<Rightarrow>
     (case sample (sequences m) 1 g2 of
        Inl e \<Rightarrow> Inl e
      | Inr ([], g3) \<Rightarrow> Inl IndexError
      | Inr (contaminant # _, g3) \<Rightarrow>
          (let contaminant_identifier =
                 identifier (heap m original_seq) @ ''_contaminated_'' @ this_otu @ ''_'' @
                 str substitutions @ ''_subs'';
               contaminant_description = otu (heap m contaminant) @ ''@'' @ contaminant_identifier
           in (case remove_sequence
                      (add_new_sequence m contaminant_description contaminated_seq) contaminant of
                 Inl e \<Rightarrow> Inl e
               | Inr m' \<Rightarrow> Inr (m', g3))))))"

text \<open>
  The state of the loop of \<^verbatim>\<open>cross_contaminate\<close>: the alignment, the random source and
  \<^verbatim>\<open>contamination_count\<close>, which the function prints. The likelihood is a Python float,
  given here as a real number; \<^verbatim>\<open>likelihood * 100\<close> is exact for 0.0 and 1.0.
\<close>

definition contaminate_step ::
  "real \<Rightarrow> int \<Rightarrow> msa \<times> rng \<times> int \<Rightarrow> string \<times> int \<Rightarrow> error + msa \<times> rng \<times> int" where
  "contaminate_step likelihood max_substitutions st entry =
     (case (st, entry) of ((m, g, contamination_count), (this_otu, n)) \<Rightarrow>
        if n = 0 then Inr st
        else
          (case randrange 100 g of
             Inl e \<Rightarrow> Inl e
           | Inr (r, g1) \<Rightarrow>
               if real_of_int r > likelihood * 100 then Inr (m, g1, contamination_count)
               else
                 (case contaminate m this_otu max_substitutions g1 of
                    Inl e \<Rightarrow> Inl e
                  | Inr (m', g2) \<Rightarrow> Inr (m', g2, contamination_count + 1))))"

fun contaminate_loop ::
  "real \<Rightarrow> int \<Rightarrow> (string \<times> int) list \<Rightarrow> msa \<times> rng \<times> int \<Rightarrow> error + msa \<times> rng \<times> int" where
  "contaminate_loop likelihood max_substitutions [] st = Inr st"
| "contaminate_loop likelihood max_substitutions (entry # entries) st =
     (case contaminate_step likelihood max_substitutions st entry of
        Inl e \<Rightarrow> Inl e
      | Inr st' \<Rightarrow> contaminate_loop likelihood max_substitutions entries st')"

definition cross_contaminate ::
  "msa \<Rightarrow> string list \<Rightarrow> real \<Rightarrow> int \<Rightarrow> rng \<Rightarrow> error + msa \<times> rng \<times> int" where
  "cross_contaminate m receivers likelihood max_substitutions g =
     contaminate_loop likelihood max_substitutions (receivers_in_msa m receivers) (m, g, 0)"

section \<open>Concrete alignments\<close>

text \<open>
  Alignments for the concrete runs below. \<open>labelled name ident\<close> is a sequence object of
  the OTU \<open>name\<close> as a loader leaves it; \<open>alignment_of\<close> stores the given objects at the
  references 0, 1, ... and lists them in that order; \<open>labels\<close> reads an alignment back:
  reference, OTU and description of each entry of \<^verbatim>\<open>msa.sequences\<close>.
\<close>

definition labelled :: "string \<Rightarrow> string \<Rightarrow> sequence" where
  "labelled name ident =
     \<lparr>otu = name, identifier = ident, description = name @ ''@'' @ ident,
      sequence_data = ''ACGT''\<rparr>"

definition alignment_of :: "sequence list \<Rightarrow> msa" where
  "alignment_of xs =
     \<lparr>sequences = [0..<length xs],
      heap = (\<lambda>r. if r < length xs then xs ! r else labelled [] []),
      fresh = length xs\<rparr>"

definition labels :: "msa \<Rightarrow> (ref \<times> string \<times> string) list" where
  "labels m = map (\<lambda>r. (r, otu (heap m r), description (heap m r))) (sequences m)"


definition three_taxa :: msa where
  "three_taxa = alignment_of [labelled ''A'' ''a1'', labelled ''B'' ''b1'', labelled ''C'' ''c1'']"

definition three_and_two :: msa where
  "three_and_two = alignment_of [labelled ''A'' ''a1'', labelled ''A'' ''a2'', labelled ''A'' ''a3'',
                                 labelled ''B'' ''b1'', labelled ''B'' ''b2'']"



section \<open>Facts about sampling\<close>

lemma sample_loop_length:
  "k \<le> length pool \<Longrightarrow> length (fst (sample_loop pool k g)) = k"
proof (induction k arbitrary: pool g)
  case 0
  show ?case by simp
next
  case (Suc k)
  obtain d g' where dg: "draw g = (d, g')" by (cases "draw g")
  define j where "j = d mod length pool"
  from Suc.prems have "0 < length pool" by (cases pool) auto
  then have "j < length pool" by (simp add: j_def)
  with Suc.prems have "k \<le> length (take j pool @ drop (Suc j) pool)" by simp
  from Suc.IH [OF this, of g'] show ?case
    by (auto simp: dg j_def [symmetric] split: prod.splits)
qed

lemma sample_loop_subset:
  "k \<le> length pool \<Longrightarrow> set (fst (sample_loop pool k g)) \<subseteq> set pool"
proof (induction k arbitrary: pool g)
  case 0
  show ?case by simp
next
  case (Suc k)
  obtain d g' where dg: "draw g = (d, g')" by (cases "draw g")
  define j where "j = d mod length pool"
  define rest where "rest = take j pool @ drop (Suc j) pool"
  from Suc.prems have "0 < length pool" by (cases pool) auto
  then have j: "j < length pool" by (simp add: j_def)
  with Suc.prems have "k \<le> length rest" by (simp add: rest_def)
  from Suc.IH [OF this, of g'] have "set (fst (sample_loop rest k g')) \<subseteq> set rest" .
  moreover have "set rest \<subseteq> set pool"
    unfolding rest_def using set_take_subset [of j pool] set_drop_subset [of "Suc j" pool] by auto
  moreover have "pool ! j \<in> set pool" using j by simp
  ultimately show ?case
    by (auto simp: dg j_def [symmetric] rest_def [symmetric] split: prod.splits)
qed

lemma sample_loop_distinct:
  "distinct pool \<Longrightarrow> k \<le> length pool \<Longrightarrow> distinct (fst (sample_loop pool k g))"
proof (induction k arbitrary: pool g)
  case 0
  show ?case by simp
next
  case (Suc k)
  obtain d g' where dg: "draw g = (d, g')" by (cases "draw g")
  define j where "j = d mod length pool"
  define rest where "rest = take j pool @ drop (Suc j) pool"
  from Suc.prems(2) have "0 < length pool" by (cases pool) auto
  then have j: "j < length pool" by (simp add: j_def)
  have pool: "pool = take j pool @ pool ! j # drop (Suc j) pool"
    using j by (simp add: id_take_nth_drop)
  from Suc.prems(1) have "distinct (take j pool @ pool ! j # drop (Suc j) pool)"
    using pool by simp
  then have d_rest: "distinct rest" and notin: "pool ! j \<notin> set rest"
    by (auto simp: rest_def)
  from j Suc.prems(2) have len: "k \<le> length rest" by (simp add: rest_def)
  from Suc.IH [OF d_rest len, of g'] have "distinct (fst (sample_loop rest k g'))" .
  moreover from sample_loop_subset [OF len, of g'] notin
  have "pool ! j \<notin> set (fst (sample_loop rest k g'))" by auto
  ultimately show ?case
    by (auto simp: dg j_def [symmetric] rest_def [symmetric] split: prod.splits)
qed

lemma sample_Inr:
  assumes "sample population k g = Inr (chosen, g')"
  shows "0 \<le> k" and "k \<le> int (length population)" and "int (length chosen) = k"
    and "set chosen \<subseteq> set population"
    and "distinct population \<Longrightarrow> distinct chosen"
proof -
  from assms have k: "0 \<le> k" "k \<le> int (length population)"
    and c: "chosen = fst (sample_loop population (nat k) g)"
    by (auto simp: sample_def split: if_splits)
  from k have n: "nat k \<le> length population" by simp
  show "0 \<le> k" "k \<le> int (length population)" by fact+
  show "int (length chosen) = k"
    using sample_loop_length [OF n, of g] k by (simp add: c)
  show "set chosen \<subseteq> set population"
    using sample_loop_subset [OF n, of g] by (simp add: c)
  show "distinct population \<Longrightarrow> distinct chosen"
    using sample_loop_distinct [OF _ n, of g] by (simp add: c)
qed

lemma randint_succeeds: "a \<le> b \<Longrightarrow> \<exists>r g'. randint a b g = Inr (r, g')"
  by (cases "draw g") (simp add: randint_def randrange_def)

lemma sample_succeeds:
  "0 \<le> k \<Longrightarrow> k \<le> int (length population) \<Longrightarrow> \<exists>r. sample population k g = Inr r"
  by (simp add: sample_def)

lemma sample_fails:
  "int (length population) < k \<Longrightarrow> sample population k g = Inl ValueError"
  by (simp add: sample_def)

lemma randint_Inr:
  "randint a b g = Inr (r, g') \<Longrightarrow> a \<le> r \<and> r \<le> b"
proof -
  assume "randint a b g = Inr (r, g')"
  then obtain d where n: "0 < b - a + 1" and r: "r = a + int d mod (b - a + 1)"
    by (auto simp: randint_def randrange_def split: if_splits prod.splits)
  from n have "0 \<le> int d mod (b - a + 1)" and "int d mod (b - a + 1) < b - a + 1"
    by (rule pos_mod_sign, rule pos_mod_bound)
  with r show ?thesis by linarith
qed

section \<open>Facts about the substitution loop\<close>

lemma substitute_length:
  "substitute i ps rs s = Inr s' \<Longrightarrow> length s' = length s"
  by (induction ps arbitrary: i s) (auto split: if_splits)

lemma substitute_untouched:
  "substitute i ps rs s = Inr s' \<Longrightarrow> p \<notin> set ps \<Longrightarrow> s' ! p = s ! p"
  by (induction ps arbitrary: i s) (auto split: if_splits)

lemma substitute_succeeds:
  "i + length ps \<le> length rs \<Longrightarrow> \<forall>r \<in> set rs. r < length s \<Longrightarrow> \<forall>p \<in> set ps. p < length s
     \<Longrightarrow> \<exists>s'. substitute i ps rs s = Inr s'"
  by (induction ps arbitrary: i s) auto

section \<open>Properties of the noise injector\<close>

text \<open>
  C8. Whenever \<^verbatim>\<open>add_noise\<close> returns, the returned string is as long as the input string:
  the loop only overwrites characters.
\<close>

theorem add_noise_length:
  "add_noise s m g = Inr ((s', n), g') \<Longrightarrow> length s' = length s"
  by (auto simp: add_noise_def split: sum.splits prod.splits dest: substitute_length)

theorem add_noise_length_witness:
  "add_noise ''ACGT'' 3 [2, 0, 0, 0, 2, 1, 0] = Inr ((''ATGT'', 3), [])
   \<and> length ''ATGT'' = length ''ACGT''"
proof -
  have run: "add_noise ''ACGT'' 3 [2, 0, 0, 0, 2, 1, 0] = Inr ((''ATGT'', 3), [])"
    by code_simp
  from add_noise_length [OF run] run show ?thesis by simp
qed

text \<open>
  C9. Whenever \<^verbatim>\<open>add_noise\<close> returns, the input has a character at position 0 and the
  returned string has the same character there: the target positions are sampled from
  \<^verbatim>\<open>range(1, len(sequence))\<close>, so position 0 is never overwritten.
\<close>

theorem add_noise_first:
  assumes "add_noise s m g = Inr ((s', n), g')"
  shows "s \<noteq> [] \<and> s' \<noteq> [] \<and> s' ! 0 = s ! 0"
proof -
  from assms obtain g1 positions g2 replacements where
    n: "randint 1 m g = Inr (n, g1)"
    and ps: "sample [1..<length s] n g1 = Inr (positions, g2)"
    and sub: "substitute 0 positions replacements s = Inr s'"
    by (auto simp: add_noise_def split: sum.splits prod.splits)
  from randint_Inr [OF n] have "1 \<le> n" by simp
  moreover from sample_Inr(2) [OF ps] have "n \<le> int (length [1..<length s])" .
  ultimately have len: "2 \<le> length s" by simp
  from sample_Inr(4) [OF ps] have "0 \<notin> set positions" by auto
  from substitute_untouched [OF sub this] have "s' ! 0 = s ! 0" .
  moreover from substitute_length [OF sub] len have "s' \<noteq> []" "s \<noteq> []" by auto
  ultimately show ?thesis by simp
qed

theorem add_noise_first_witness:
  "add_noise ''GATTACA'' 2 [1, 5, 0, 2, 2] = Inr ((''GATTACT'', 2), [])
   \<and> ''GATTACT'' ! 0 = ''GATTACA'' ! 0"
proof -
  have run: "add_noise ''GATTACA'' 2 [1, 5, 0, 2, 2] = Inr ((''GATTACT'', 2), [])"
    by code_simp
  from add_noise_first [OF run] run show ?thesis by simp
qed

text \<open>
  C10. \<^verbatim>\<open>add_noise\<close> returns for every state of the random source exactly under
  \<open>1 \<le> max_substitutions \<le> len(sequence) - 1\<close>. Under it every call returns. Whenever the
  drawn number of substitutions exceeds \<open>len(sequence) - 1\<close>, the call fails with
  \<^verbatim>\<open>ValueError\<close>, raised by \<^verbatim>\<open>random.sample\<close>; and when \<open>max_substitutions\<close> is at
  least 1 and exceeds \<open>len(sequence) - 1\<close>, some state of the random source draws such a
  number, however long the sequence.
\<close>

theorem add_noise_total:
  "(1 \<le> m \<and> m \<le> int (length s) - 1 \<longrightarrow> (\<forall>g. \<exists>r. add_noise s m g = Inr r))
   \<and> (\<forall>g n g1. randint 1 m g = Inr (n, g1) \<and> int (length s) - 1 < n
         \<longrightarrow> add_noise s m g = Inl ValueError)
   \<and> (1 \<le> m \<and> int (length s) - 1 < m \<longrightarrow> (\<exists>g. add_noise s m g = Inl ValueError))"
proof (intro conjI impI allI)
  fix g
  assume m: "1 \<le> m \<and> m \<le> int (length s) - 1"
  then obtain n g1 where n: "randint 1 m g = Inr (n, g1)"
    using randint_succeeds [of 1 m g] by auto
  from randint_Inr [OF n] m have b: "0 \<le> n" "n \<le> int (length [1..<length s])" by auto
  from sample_succeeds [OF b] obtain positions g2
    where ps: "sample [1..<length s] n g1 = Inr (positions, g2)" by fastforce
  from sample_succeeds [OF b] obtain replacements g3
    where rs: "sample [1..<length s] n g2 = Inr (replacements, g3)" by fastforce
  have "0 + length positions \<le> length replacements"
    using sample_Inr(3) [OF ps] sample_Inr(3) [OF rs] by simp
  moreover have "\<forall>r \<in> set replacements. r < length s"
    using sample_Inr(4) [OF rs] by auto
  moreover have "\<forall>p \<in> set positions. p < length s"
    using sample_Inr(4) [OF ps] by auto
  ultimately obtain s' where "substitute 0 positions replacements s = Inr s'"
    using substitute_succeeds by blast
  with n ps rs show "\<exists>r. add_noise s m g = Inr r"
    by (simp add: add_noise_def)
next
  fix g n g1
  assume a: "randint 1 m g = Inr (n, g1) \<and> int (length s) - 1 < n"
  with randint_Inr [of 1 m g n g1] have "int (length [1..<length s]) < n" by (cases s) auto
  from sample_fails [OF this] a show "add_noise s m g = Inl ValueError"
    by (simp add: add_noise_def)
next
  assume m: "1 \<le> m \<and> int (length s) - 1 < m"
  define g where "g = [nat (m - 1)]"
  from m have "(m - 1) mod m = m - 1" by (intro mod_pos_pos_trivial) auto
  with m have "randint 1 m g = Inr (m, [])"
    by (simp add: randint_def randrange_def g_def)
  moreover from m have "int (length [1..<length s]) < m" by (cases s) auto
  then have "sample [1..<length s] m [] = Inl ValueError" by (rule sample_fails)
  ultimately have "add_noise s m g = Inl ValueError"
    by (simp add: add_noise_def)
  then show "\<exists>g. add_noise s m g = Inl ValueError" ..
qed

theorem add_noise_total_witness:
  "(\<forall>g. \<exists>r. add_noise ''ACGT'' 3 g = Inr r)
   \<and> randint 1 2 [1] = Inr (2, []) \<and> add_noise ''AC'' 2 [1] = Inl ValueError
   \<and> (\<exists>g. add_noise ''AC'' 2 g = Inl ValueError)"
proof -
  have r: "randint 1 2 [1] = Inr (2, [])" by (simp add: randint_def randrange_def)
  from add_noise_total [of 3 "''ACGT''"] add_noise_total [of 2 "''AC''"] r
  show ?thesis by simp
qed

section \<open>Properties of the random selection of OTUs\<close>

lemma exclude_fold:
  "distinct os \<Longrightarrow>
     distinct (fold (\<lambda>name os. if name \<in> set os then remove1 name os else os) excluded os)
     \<and> set (fold (\<lambda>name os. if name \<in> set os then remove1 name os else os) excluded os)
         = set os - set excluded"
  by (induction excluded arbitrary: os) auto

lemma candidates_length:
  "length (fold (\<lambda>name os. if name \<in> set os then remove1 name os else os) excluded (otus m))
     = card (set (otus m) - set excluded)"
proof -
  have "distinct (otus m)" by (simp add: otus_def)
  from exclude_fold [OF this, of excluded] show ?thesis
    using distinct_card by fastforce
qed

lemma pick_otus_randomly_too_few:
  "int (card (set (otus m) - set excluded)) < count
     \<Longrightarrow> pick_otus_randomly m count (Some excluded) g = Inr ([], g)"
  by (simp add: pick_otus_randomly_def candidates_length)

text \<open>
  C7, as the code has it. For every alignment, every count that is not negative and every
  exclude set: when the count exceeds the number of OTUs of the alignment that are not
  excluded, \<^verbatim>\<open>pick_otus_randomly\<close> returns the empty collection (and draws nothing);
  otherwise it returns exactly \<open>count\<close> distinct OTUs of the alignment, none of them
  excluded.
\<close>

theorem pick_otus_randomly_result:
  assumes "0 \<le> count"
  shows "(int (card (set (otus m) - set excluded)) < count
            \<longrightarrow> pick_otus_randomly m count (Some excluded) g = Inr ([], g))
     \<and> (count \<le> int (card (set (otus m) - set excluded))
            \<longrightarrow> (\<exists>donors g'. pick_otus_randomly m count (Some excluded) g = Inr (donors, g')
                   \<and> int (length donors) = count \<and> distinct donors
                   \<and> set donors \<subseteq> set (otus m) \<and> set donors \<inter> set excluded = {}))"
proof -
  define candidates where
    "candidates = fold (\<lambda>name os. if name \<in> set os then remove1 name os else os) excluded (otus m)"
  have "distinct (otus m)" by (simp add: otus_def)
  from exclude_fold [OF this, of excluded]
  have d: "distinct candidates" and s: "set candidates = set (otus m) - set excluded"
    by (simp_all add: candidates_def)
  have len: "length candidates = card (set (otus m) - set excluded)"
    by (simp add: candidates_def candidates_length)
  have p: "pick_otus_randomly m count (Some excluded) g =
      (if int (length candidates) < count then Inr ([], g) else sample candidates count g)"
    by (simp add: pick_otus_randomly_def candidates_def)
  show ?thesis
  proof (intro conjI impI)
    assume "int (card (set (otus m) - set excluded)) < count"
    with p len show "pick_otus_randomly m count (Some excluded) g = Inr ([], g)" by simp
  next
    assume c: "count \<le> int (card (set (otus m) - set excluded))"
    with len have le: "count \<le> int (length candidates)" by simp
    from sample_succeeds [OF assms le] obtain donors g'
      where sm: "sample candidates count g = Inr (donors, g')" by fastforce
    from sample_Inr(3,4) [OF sm] sample_Inr(5) [OF sm d] s
    have "int (length donors) = count \<and> distinct donors
        \<and> set donors \<subseteq> set (otus m) \<and> set donors \<inter> set excluded = {}" by auto
    moreover from p le sm have "pick_otus_randomly m count (Some excluded) g = Inr (donors, g')"
      by simp
    ultimately show "\<exists>donors g'. pick_otus_randomly m count (Some excluded) g = Inr (donors, g')
                   \<and> int (length donors) = count \<and> distinct donors
                   \<and> set donors \<subseteq> set (otus m) \<and> set donors \<inter> set excluded = {}" by blast
  qed
qed

theorem pick_otus_randomly_result_witness:
  "pick_otus_randomly three_taxa 3 (Some [''A'']) [] = Inr ([], [])
   \<and> (\<exists>donors g'. pick_otus_randomly three_taxa 2 (Some [''A'']) [] = Inr (donors, g')
         \<and> int (length donors) = 2 \<and> distinct donors
         \<and> set donors \<subseteq> set (otus three_taxa) \<and> set donors \<inter> set [''A''] = {})"
proof -
  have c: "card (set (otus three_taxa) - set [''A'']) = 2" by code_simp
  from pick_otus_randomly_result [of 3 three_taxa "[''A'']" "[]"]
       pick_otus_randomly_result [of 2 three_taxa "[''A'']" "[]"] c
  show ?thesis by simp
qed

text \<open>
  The claim as stated, for every count, fails at a negative count: the guard
  \<^verbatim>\<open>len(otus_in_msa) < count\<close> does not hold, and \<^verbatim>\<open>random.sample\<close> raises
  \<^verbatim>\<open>ValueError\<close>, where the claim promises \<open>count\<close> OTUs.
\<close>

theorem pick_otus_randomly_negative:
  "pick_otus_randomly three_taxa (- 1) (Some [''A'']) [] = Inl ValueError"
  by code_simp

section \<open>Properties of the contamination engine\<close>

text \<open>
  The number of sequences is the same after a contamination event, and so after every
  run of \<^verbatim>\<open>cross_contaminate\<close> that completes.
\<close>

lemma contaminate_length:
  "contaminate m name max_substitutions g = Inr (m', g') \<Longrightarrow>
     length (sequences m') = length (sequences m)"
proof -
  assume a: "contaminate m name max_substitutions g = Inr (m', g')"
  then obtain g2 contaminant rest d s where
    pick: "sample (sequences m) 1 g2 = Inr (contaminant # rest, g')"
    and rem: "remove_sequence (add_new_sequence m d s) contaminant = Inr m'"
    by (auto simp: contaminate_def Let_def split: sum.splits prod.splits list.splits)
  from rem obtain ys where "list_remove contaminant (sequences m @ [fresh m]) = Inr ys"
    and "sequences m' = ys"
    by (auto simp: remove_sequence_def add_new_sequence_def split: sum.splits)
  with list_remove_length show ?thesis by fastforce
qed

lemma contaminate_loop_length:
  "contaminate_loop likelihood max_substitutions entries (m, g, c) = Inr (m', g', c') \<Longrightarrow>
     length (sequences m') = length (sequences m)"
proof (induction entries arbitrary: m g c)
  case Nil
  then show ?case by simp
next
  case (Cons entry entries)
  from Cons.prems obtain m1 g1 c1 where
    st: "contaminate_step likelihood max_substitutions (m, g, c) entry = Inr (m1, g1, c1)"
    and l: "contaminate_loop likelihood max_substitutions entries (m1, g1, c1) = Inr (m', g', c')"
    by (auto split: sum.splits)
  from st have "length (sequences m1) = length (sequences m)"
    by (auto simp: contaminate_step_def split: prod.splits if_splits sum.splits
             dest: contaminate_length)
  with Cons.IH [OF l] show ?case by simp
qed

lemma cross_contaminate_length:
  "cross_contaminate m receivers likelihood max_substitutions g = Inr (m', g', c) \<Longrightarrow>
     length (sequences m') = length (sequences m)"
  unfolding cross_contaminate_def by (rule contaminate_loop_length)



text \<open>
  C4. With likelihood 0.0 the event is skipped when \<^verbatim>\<open>randrange(100) > 0.0\<close>, so a draw
  of 0 does not skip it: on an alignment of one sequence of the receiver \<open>A\<close>, the run
  below reports one contamination event and returns an alignment whose only sequence is
  the synthesized one.
\<close>

theorem cross_contaminate_zero_likelihood:
  "map_sum id (\<lambda>(m, g, n). (labels m, n))
     (cross_contaminate (alignment_of [labelled ''A'' ''a1'']) [''A''] 0 1 [0])
   = Inr ([(1, ''A'', ''A@a1_contaminated_A_1_subs'')], 1)"
  by code_simp

section \<open>Properties of the swap engine\<close>



text \<open>
  C1. \<^verbatim>\<open>replace_receiver_seqs\<close> passes \<^verbatim>\<open>set(otu)\<close> to \<^verbatim>\<open>randomly_assign_seqs\<close>: the set of
  the characters of the receiver's name, not the set holding the name. For the receiver
  \<open>AB\<close> with two sequences and the donor \<open>C\<close>, the donor's sequence is labelled
  \<open>A@c1_from_C\<close>, not \<open>AB@c1_from_C\<close>. By \<open>randomly_assign_seqs_labels\<close> the label
  starts with a single character for every alignment and every state of the random source.
\<close>

theorem replace_receiver_seqs_label:
  "map_sum id (\<lambda>st. labels (alignment st))
     (replace_receiver_seqs
        (alignment_of [labelled ''AB'' ''a1'', labelled ''AB'' ''a2'', labelled ''C'' ''c1''])
        [''AB''] [])
   = Inr [(1, ''AB'', ''AB@a2''), (2, ''C'', ''A@c1_from_C'')]"
  by code_simp

text \<open>
  C6. \<^verbatim>\<open>remove_seqs_from_otu\<close> removes from the list it iterates over, so the sequence
  that follows a removed one is skipped. With the donor \<open>B\<close> holding two adjacent
  sequences, the second stays in the alignment; in the run of \<^verbatim>\<open>replace_receiver_seqs\<close>
  the object 3 then stands twice in the result, once left behind and once inserted.
\<close>

theorem remove_seqs_from_otu_skips:
  "map_sum id labels
     (remove_seqs_from_otu
        (alignment_of [labelled ''A'' ''a1'', labelled ''B'' ''b1'', labelled ''B'' ''b2''])
        (Coll [''B'']))
   = Inr [(0, ''A'', ''A@a1''), (2, ''B'', ''B@b2'')]
   \<and> map_sum id (\<lambda>st. labels (alignment st))
     (replace_receiver_seqs
        (alignment_of [labelled ''A'' ''a1'', labelled ''A'' ''a2'',
                       labelled ''B'' ''b1'', labelled ''B'' ''b2''])
        [''A''] [])
   = Inr [(1, ''A'', ''A@a2''), (3, ''B'', ''A@b2_from_B''),
          (2, ''B'', ''A@b1_from_B''), (3, ''B'', ''A@b2_from_B'')]"
  by code_simp

lemma remove_each_ok:
  "distinct chosen \<Longrightarrow> set chosen \<subseteq> set (sequences m) \<Longrightarrow>
     \<exists>m'. remove_each chosen m = Inr m' \<and> heap m' = heap m \<and> fresh m' = fresh m
          \<and> set (sequences m') \<subseteq> set (sequences m)"
proof (induction chosen arbitrary: m)
  case Nil
  show ?case by simp
next
  case (Cons x chosen)
  define m2 where "m2 = m\<lparr>sequences := remove1 x (sequences m)\<rparr>"
  from Cons.prems have x: "x \<in> set (sequences m)" and nx: "x \<notin> set chosen"
    and d: "distinct chosen" and sub: "set chosen \<subseteq> set (sequences m)" by auto
  have "set chosen \<subseteq> set (sequences m2)"
  proof
    fix y assume y: "y \<in> set chosen"
    with nx have "y \<noteq> x" by auto
    with y sub show "y \<in> set (sequences m2)" by (auto simp: m2_def)
  qed
  from Cons.IH [OF d this] obtain m' where
    r: "remove_each chosen m2 = Inr m'" and h: "heap m' = heap m2" "fresh m' = fresh m2"
    and s: "set (sequences m') \<subseteq> set (sequences m2)" by blast
  have "set (sequences m2) \<subseteq> set (sequences m)"
    using set_remove1_subset [of x "sequences m"] by (simp add: m2_def)
  with x r h s show ?case by (auto simp: list_remove_def m2_def)
qed


lemma remove_seqs_loop_none:
  "\<forall>r \<in> set (sequences m). \<not> contains (otu (heap m r)) c \<Longrightarrow> remove_seqs_loop i c m = Inr m"
proof (induction i c m rule: remove_seqs_loop.induct)
  case (1 i c m)
  show ?case
  proof (cases "i < length (sequences m)")
    case True
    with "1.prems" have n: "\<not> contains (otu (heap m (sequences m ! i))) c" by simp
    from "1.IH"(2) [OF True n "1.prems"] True n show ?thesis
      by (subst remove_seqs_loop.simps) simp
  next
    case False
    then show ?thesis by (subst remove_seqs_loop.simps) simp
  qed
qed

lemma replace_step_fails:
  "1 < n \<Longrightarrow> int (length (get_seqs_from_otus (alignment st) (Str this_otu))) < swap_count st + (n - 1)
     \<Longrightarrow> replace_step receivers st (this_otu, n) = Inl ValueError"
  by (simp add: replace_step_def remove_old_sequences_def Let_def sample_fails)












text \<open>
  C3. On the alignment with three sequences of the receiver \<open>A\<close> and two of the receiver
  \<open>B\<close>, \<^verbatim>\<open>replace_receiver_seqs\<close> fails for every state of the random source: the
  step for \<open>A\<close> completes with \<open>swap_count = 2\<close>; the step for \<open>B\<close> then samples
  \<open>2 + 1 = 3\<close> sequences among fewer than three, and \<^verbatim>\<open>random.sample\<close> raises
  \<^verbatim>\<open>ValueError\<close>.
\<close>

theorem replace_receiver_seqs_fails:
  "\<forall>g. \<exists>st. replace_step [''A'', ''B''] (initial three_and_two g) (''A'', 3) = Inr st
        \<and> swap_count st = 2
        \<and> int (length (get_seqs_from_otus (alignment st) (Str ''B''))) < 3
        \<and> replace_step [''A'', ''B''] st (''B'', 2) = Inl ValueError
        \<and> replace_receiver_seqs three_and_two [''A'', ''B''] g = Inl ValueError"
proof
  fix g
  define m where "m = three_and_two"
  have rc: "receivers_in_msa m [''A'', ''B''] = [(''A'', 3), (''B'', 2)]"
    unfolding m_def by code_simp
  have own: "get_seqs_from_otus m (Str ''A'') = [0, 1, 2]"
    unfolding m_def by code_simp
  have seqs: "sequences m = [0, 1, 2, 3, 4]"
    unfolding m_def by code_simp
  have names: "\<forall>r \<in> set (sequences m). otu (heap m r) \<in> {''A'', ''B''}"
    unfolding m_def by code_simp
  have onlyB: "\<forall>r \<in> set (sequences m). sublist (otu (heap m r)) ''B'' \<longrightarrow> r \<in> {3, 4}"
    unfolding m_def by code_simp
  obtain chosen g1 where sm: "sample [0, 1, 2 :: nat] 2 g = Inr (chosen, g1)"
    using sample_succeeds [of 2 "[0, 1, 2 :: nat]" g] by auto
  from sample_Inr(4) [OF sm] sample_Inr(5) [OF sm] seqs
  have "distinct chosen" and "set chosen \<subseteq> set (sequences m)" by auto
  from remove_each_ok [OF this] obtain m1 where
    re: "remove_each chosen m = Inr m1" and h: "heap m1 = heap m"
    and sub: "set (sequences m1) \<subseteq> set (sequences m)" by blast
  have old: "remove_old_sequences m ''A'' 2 g = Inr (m1, g1)"
    using sm re by (simp add: remove_old_sequences_def own)
  have "set (otus m1) \<subseteq> {''A'', ''B''}"
    using names sub h by (auto simp: otus_def)
  then have e: "set (otus m1) - set [''A'', ''B''] = {}" by auto
  have "int (card (set (otus m1) - set [''A'', ''B''])) < 2" unfolding e by simp
  from pick_otus_randomly_too_few [OF this]
  have pick: "pick_otus_randomly m1 2 (Some [''A'', ''B'']) g1 = Inr ([], g1)" .
  have none: "remove_seqs_from_otu m1 (Coll []) = Inr m1"
    unfolding remove_seqs_from_otu_def by (rule remove_seqs_loop_none) simp
  have new: "assign_new_sequences m1 [''A'', ''B''] ''A'' 2 g1 = Inr (m1, g1)"
    using pick none by (simp add: assign_new_sequences_def get_seqs_from_otus_def)
  define st where "st = \<lparr>alignment = m1, gen = g1, swap_count = 2,
                         affected_receivers = [''A'']\<rparr>"
  have step1: "replace_step [''A'', ''B''] (initial m g) (''A'', 3) = Inr st"
    using old new by (simp add: replace_step_def initial_def st_def)
  have inB: "set (get_seqs_from_otus m1 (Str ''B'')) \<subseteq> {3, 4}"
    using onlyB sub h by (auto simp: get_seqs_from_otus_def)
  have "distinct (get_seqs_from_otus m1 (Str ''B''))"
    by (simp add: get_seqs_from_otus_def)
  then have "length (get_seqs_from_otus m1 (Str ''B'')) = card (set (get_seqs_from_otus m1 (Str ''B'')))"
    by (simp add: distinct_card)
  also have "\<dots> \<le> card {3, 4 :: nat}"
    by (rule card_mono) (use inB in simp_all)
  also have "\<dots> = 2" by simp
  finally have "length (get_seqs_from_otus m1 (Str ''B'')) \<le> 2" .
  then have few: "int (length (get_seqs_from_otus (alignment st) (Str ''B''))) < 3"
    by (simp add: st_def)
  then have "int (length (get_seqs_from_otus (alignment st) (Str ''B''))) < swap_count st + (2 - 1)"
    by (simp add: st_def)
  from replace_step_fails [OF _ this]
  have step2: "replace_step [''A'', ''B''] st (''B'', 2) = Inl ValueError" by simp
  have "replace_receiver_seqs m [''A'', ''B''] g = Inl ValueError"
    using step1 step2 by (simp add: replace_receiver_seqs_def rc)
  with step1 few step2 have "replace_step [''A'', ''B''] (initial m g) (''A'', 3) = Inr st
        \<and> swap_count st = 2
        \<and> int (length (get_seqs_from_otus (alignment st) (Str ''B''))) < 3
        \<and> replace_step [''A'', ''B''] st (''B'', 2) = Inl ValueError
        \<and> replace_receiver_seqs m [''A'', ''B''] g = Inl ValueError"
    by (simp add: st_def)
  then show "\<exists>st. replace_step [''A'', ''B''] (initial three_and_two g) (''A'', 3) = Inr st
        \<and> swap_count st = 2
        \<and> int (length (get_seqs_from_otus (alignment st) (Str ''B''))) < 3
        \<and> replace_step [''A'', ''B''] st (''B'', 2) = Inl ValueError
        \<and> replace_receiver_seqs three_and_two [''A'', ''B''] g = Inl ValueError"
    unfolding m_def by blast
qed

end
